theory Spec2Isabelle
  imports Main "HOL-Library.Multiset"
begin

section \<open>JavaScript values and arrays\<close>

text \<open>
  The script \<^verbatim>\<open>patterninverter.js\<close> handles lists of Max integer atoms. The values
  it can hold in an array cell are an integer, \<^verbatim>\<open>NaN\<close> (arithmetic on a missing value
  or a remainder by zero) and \<^verbatim>\<open>undefined\<close> (a read outside an array, an empty slot
  of \<^verbatim>\<open>new Array(n)\<close>, a missing key of an object). Integers are taken as exact
  (the double-precision rounding above \<open>2^53\<close> is not modelled).
\<close>

datatype jsval = Num int | NaN | Undefined

fun js_add :: "jsval \<Rightarrow> jsval \<Rightarrow> jsval" where
  "js_add (Num a) (Num b) = Num (a + b)"
| "js_add _ _ = NaN"

fun js_sub :: "jsval \<Rightarrow> jsval \<Rightarrow> jsval" where
  "js_sub (Num a) (Num b) = Num (a - b)"
| "js_sub _ _ = NaN"

text \<open>The operator \<^verbatim>\<open>%\<close> of JavaScript truncates: the result has the sign of the
  dividend, and a zero divisor gives \<^verbatim>\<open>NaN\<close>.\<close>

definition trunc_rem :: "int \<Rightarrow> int \<Rightarrow> int" where
  "trunc_rem a b = sgn a * (\<bar>a\<bar> mod \<bar>b\<bar>)"

fun js_rem :: "jsval \<Rightarrow> jsval \<Rightarrow> jsval" where
  "js_rem (Num a) (Num b) = (if b = 0 then NaN else Num (trunc_rem a b))"
| "js_rem _ _ = NaN"

text \<open>\<^verbatim>\<open>x == k\<close> and \<^verbatim>\<open>x >= k\<close> against a number literal \<open>k\<close>: false on
  \<^verbatim>\<open>NaN\<close> and on \<^verbatim>\<open>undefined\<close>.\<close>

fun js_eq_num :: "jsval \<Rightarrow> int \<Rightarrow> bool" where
  "js_eq_num (Num a) k = (a = k)"
| "js_eq_num _ k = False"

fun js_ge_num :: "jsval \<Rightarrow> int \<Rightarrow> bool" where
  "js_ge_num (Num a) k = (k \<le> a)"
| "js_ge_num _ k = False"

text \<open>\<^verbatim>\<open>new Array(n)\<close> has \<open>n\<close> empty slots, each read as \<^verbatim>\<open>undefined\<close>. A read
  outside the array gives \<^verbatim>\<open>undefined\<close>; a write at or beyond the length extends
  the array.\<close>

definition new_Array :: "nat \<Rightarrow> jsval list" where
  "new_Array n = replicate n Undefined"

definition js_get :: "jsval list \<Rightarrow> nat \<Rightarrow> jsval" where
  "js_get xs i = (if i < length xs then xs ! i else Undefined)"

definition js_set :: "jsval list \<Rightarrow> nat \<Rightarrow> jsval \<Rightarrow> jsval list" where
  "js_set xs i v =
     (if i < length xs then xs[i := v]
      else xs @ replicate (i - length xs) Undefined @ [v])"

definition idx_get :: "nat list \<Rightarrow> nat \<Rightarrow> nat option" where
  "idx_get xs i = (if i < length xs then Some (xs ! i) else None)"

section \<open>Globals of the script\<close>

text \<open>Every top-level \<^verbatim>\<open>var\<close> that the handlers read or write, and the two arrays
  \<^verbatim>\<open>distanceList\<close> and \<^verbatim>\<open>updatedList\<close> that \<^verbatim>\<open>inverse\<close> assigns without
  declaring them (implicit globals).\<close>

record globals =
  sustainList :: "jsval list"
  valueOut :: "jsval list"
  sustainOut :: "jsval list"
  scaleLength :: int
  updateMode :: int
  matrixRow :: int
  restValue :: int
  maxPatternRange :: int
  distanceList :: "jsval list"
  updatedList :: "jsval list"

definition init_globals :: globals where
  "init_globals =
     \<lparr> sustainList = [], valueOut = [], sustainOut = [],
       scaleLength = 7, updateMode = 0, matrixRow = 0, restValue = - 1,
       maxPatternRange = 15, distanceList = [], updatedList = [] \<rparr>"

definition full :: int where "full = 0"
definition attack :: int where "attack = 1"
definition sustain :: int where "sustain = 2"
definition release :: int where "release = 3"

text \<open>The object \<^verbatim>\<open>envelopeInverseMap\<close> and a property read on it; a key that was never
  stored reads as \<^verbatim>\<open>undefined\<close>.\<close>

definition envelopeInverseMap :: "int \<rightharpoonup> int" where
  "envelopeInverseMap =
     [full \<mapsto> full, attack \<mapsto> release, sustain \<mapsto> sustain, release \<mapsto> attack]"

definition envelopeInverseMap_get :: "jsval \<Rightarrow> jsval" where
  "envelopeInverseMap_get k =
     (case k of
        Num a \<Rightarrow> (case envelopeInverseMap a of Some b \<Rightarrow> Num b | None \<Rightarrow> Undefined)
      | _ \<Rightarrow> Undefined)"

section \<open>Handlers and transforms\<close>

definition msg_int :: "nat \<Rightarrow> int \<Rightarrow> globals \<Rightarrow> globals" where
  "msg_int inlet i s =
     (if inlet = 2 then s\<lparr>updateMode := i\<rparr>
      else if inlet = 3 then s\<lparr>scaleLength := i\<rparr>
      else s)"

datatype js_error = Error string

text \<open>One call \<^verbatim>\<open>outlet(n, xs)\<close>.\<close>

datatype event = Outlet nat "jsval list"

text \<open>\<^verbatim>\<open>output\<close> of the script (suffixed: \<open>output\<close> is a keyword of Isabelle).\<close>

definition output_fn :: "globals \<Rightarrow> event list" where
  "output_fn s =
     (if length (sustainOut s) > 0 then [Outlet 1 (sustainOut s)] else [])
     @ [Outlet 0 (valueOut s)]"

text \<open>The bodies of the second and third loop of \<^verbatim>\<open>noteReverse\<close>: collecting the
  enabled notes with their indexes, and writing note \<open>i\<close> at the \<open>i\<close>-th index of the
  reversed index list. An index read outside \<^verbatim>\<open>enabledIndexes\<close> would be \<^verbatim>\<open>undefined\<close>,
  and the assignment would then leave the array cells as they are.\<close>

definition collect_step :: "jsval list \<Rightarrow> nat \<Rightarrow> jsval list \<times> nat list \<Rightarrow> jsval list \<times> nat list" where
  "collect_step valueList i =
     (\<lambda>(enabledNotes, enabledIndexes).
        let note = js_get valueList i
        in if js_ge_num note 0 then (enabledNotes @ [note], enabledIndexes @ [i])
           else (enabledNotes, enabledIndexes))"

definition place_step :: "jsval list \<Rightarrow> nat list \<Rightarrow> nat \<Rightarrow> jsval list \<Rightarrow> jsval list" where
  "place_step enabledNotes enabledIndexes i vo =
     (let note = js_get enabledNotes i
      in case idx_get enabledIndexes i of
           Some idx \<Rightarrow> js_set vo idx note
         | None \<Rightarrow> vo)"

definition noteReverse :: "jsval list \<Rightarrow> globals \<Rightarrow> globals" where
  "noteReverse valueList s =
     (let s = s\<lparr>valueOut := new_Array (length valueList)\<rparr>;
          s = s\<lparr>sustainOut := []\<rparr>;
          s = s\<lparr>valueOut :=
                 fold (\<lambda>i vo. js_set vo i (Num (restValue s)))
                   [0..<length (valueOut s)] (valueOut s)\<rparr>;
          (enabledNotes, enabledIndexes) =
             fold (collect_step valueList) [0..<length valueList] ([], []);
          enabledIndexes = rev enabledIndexes;
          s = s\<lparr>valueOut :=
                 fold (place_step enabledNotes enabledIndexes)
                   [0..<length enabledNotes] (valueOut s)\<rparr>;
          s = s\<lparr>sustainOut :=
                 fold (\<lambda>i so. so @ [Num (int i), Num (matrixRow s), js_get (sustainList s) i])
                   [0..<length (sustainList s)] (sustainOut s)\<rparr>
      in s)"

definition trueReverse :: "jsval list \<Rightarrow> globals \<Rightarrow> globals" where
  "trueReverse valueList s =
     (let s = s\<lparr>valueOut := new_Array (length valueList)\<rparr>;
          s = s\<lparr>sustainOut := []\<rparr>;
          s = s\<lparr>valueOut :=
                 fold (\<lambda>i vo. js_set vo i (js_get valueList (length valueList - i - 1)))
                   (rev [0..<length valueList]) (valueOut s)\<rparr>;
          s = s\<lparr>sustainOut :=
                 fold (\<lambda>i so.
                         let currElem = js_get (sustainList s) (length (sustainList s) - i - 1)
                         in so @ [Num (int (length (sustainList s) - i - 1)),
                                  Num (matrixRow s), envelopeInverseMap_get currElem])
                   (rev [0..<length (sustainList s)]) (sustainOut s)\<rparr>
      in s)"

definition identity :: "jsval list \<Rightarrow> globals \<Rightarrow> globals" where
  "identity valueList s =
     (let s = s\<lparr>valueOut := new_Array (length valueList)\<rparr>;
          s = s\<lparr>sustainOut := []\<rparr>;
          s = s\<lparr>valueOut :=
                 fold (\<lambda>i vo. js_set vo i (js_get valueList i))
                   [0..<length valueList] (valueOut s)\<rparr>;
          s = s\<lparr>sustainOut :=
                 fold (\<lambda>i so. so @ [Num (int i), Num (matrixRow s), js_get (sustainList s) i])
                   [0..<length (sustainList s)] (sustainOut s)\<rparr>
      in s)"

text \<open>The bodies of the two loops of \<^verbatim>\<open>inverse\<close>: the distance between consecutive
  notes that are not \<open>-1\<close>, and the next element of \<^verbatim>\<open>updatedList\<close>.\<close>

definition distance_step :: "jsval list \<Rightarrow> nat \<Rightarrow> jsval list \<times> jsval \<Rightarrow> jsval list \<times> jsval" where
  "distance_step valueList i =
     (\<lambda>(dl, prev).
        let curr = js_get valueList i
        in if js_eq_num curr (- 1) then (dl @ [Num 0], prev)
           else (dl @ [js_sub prev curr], curr))"

definition update_step :: "jsval list \<Rightarrow> jsval list \<Rightarrow> int \<Rightarrow> nat \<Rightarrow> jsval list \<Rightarrow> jsval list" where
  "update_step valueList dl m i ul =
     (if js_eq_num (js_get valueList i) (- 1) then ul @ [Num (- 1)]
      else ul @ [js_rem (js_add (js_get ul (i - 1)) (js_get dl i)) (Num m)])"

text \<open>\<^verbatim>\<open>inverse\<close> of the script (the name is suffixed: \<open>inverse\<close> is a constant of
  HOL). It returns \<^verbatim>\<open>updatedList\<close>.\<close>

definition inverse_fn :: "jsval list \<Rightarrow> globals \<Rightarrow> jsval list \<times> globals" where
  "inverse_fn valueList s =
     (let s = s\<lparr>valueOut := new_Array (length valueList)\<rparr>;
          s = s\<lparr>sustainOut := []\<rparr>;
          s = s\<lparr>distanceList := []\<rparr>;
          s = s\<lparr>updatedList := []\<rparr>;
          s = s\<lparr>distanceList := distanceList s @ [Num 0]\<rparr>;
          s = s\<lparr>updatedList := updatedList s @ [js_get valueList 0]\<rparr>;
          prev = js_get valueList 0;
          (dl, prev) =
             fold (distance_step valueList) [1..<length valueList] (distanceList s, prev);
          s = s\<lparr>distanceList := dl\<rparr>;
          s = s\<lparr>updatedList :=
                 fold (update_step valueList (distanceList s) (maxPatternRange s))
                   [1..<length (distanceList s)] (updatedList s)\<rparr>;
          s = s\<lparr>valueOut :=
                 fold (\<lambda>i vo. js_set vo i (js_get (updatedList s) i))
                   [0..<length (updatedList s)] (valueOut s)\<rparr>;
          s = s\<lparr>sustainOut :=
                 fold (\<lambda>i so. so @ [Num (int i), Num (matrixRow s), js_get (sustainList s) i])
                   [0..<length (sustainList s)] (sustainOut s)\<rparr>
      in (updatedList s, s))"

definition reverseInverse :: "jsval list \<Rightarrow> globals \<Rightarrow> globals" where
  "reverseInverse valueList s =
     (let (updatedList', s) = inverse_fn valueList s
      in trueReverse updatedList' s)"

text \<open>The handler \<^verbatim>\<open>list\<close>; \<open>inlet\<close> is the inlet on which the message arrived and
  \<open>arguments\<close> its atoms. A \<^verbatim>\<open>throw\<close> is the left summand; the globals after the call
  are returned in both cases.\<close>

definition list :: "nat \<Rightarrow> jsval list \<Rightarrow> globals \<Rightarrow> (js_error + event list) \<times> globals" where
  "list inlet arguments s =
     (if inlet = 0 then
        if length (sustainList s) \<le> 0 then
          (Inl (Error ''Sustain List has not been set''), s)
        else
          let valueList = arguments;
              s = (if updateMode s = 0 then identity valueList s
                   else if updateMode s = 1 then noteReverse valueList s
                   else if updateMode s = 2 then trueReverse valueList s
                   else if updateMode s = 3 then snd (inverse_fn valueList s)
                   else reverseInverse valueList s)
          in (Inr (output_fn s), s)
      else if inlet = 1 then
        let s = s\<lparr>sustainList := []\<rparr>;
            s = s\<lparr>sustainList :=
                   fold (\<lambda>i sl. js_set sl i (js_get arguments i))
                     [0..<length arguments] (sustainList s)\<rparr>
        in (Inr [], s)
      else (Inr [], s))"

section \<open>Closed forms and predicates of the statements\<close>

text \<open>The flat array that the sustain loops push: for each element \<open>v\<close> of the sustain
  list, at index \<open>i\<close>, the three atoms \<open>i\<close>, the matrix row and \<open>f v\<close>.\<close>

definition tagged :: "(jsval \<Rightarrow> jsval) \<Rightarrow> int \<Rightarrow> jsval list \<Rightarrow> jsval list" where
  "tagged f row sl = concat (map (\<lambda>(i, v). [Num (int i), Num row, f v]) (enumerate 0 sl))"

fun is_number :: "jsval \<Rightarrow> bool" where
  "is_number (Num a) = True"
| "is_number _ = False"

text \<open>A value is a pitch of the pattern range \<open>[0, m)\<close>.\<close>

fun in_pattern_range :: "int \<Rightarrow> jsval \<Rightarrow> bool" where
  "in_pattern_range m (Num a) = (0 \<le> a \<and> a < m)"
| "in_pattern_range m _ = False"

text \<open>The indexes that the second loop of \<^verbatim>\<open>noteReverse\<close> collects, and the
  distance list that the first loop of \<^verbatim>\<open>inverse\<close> builds.\<close>

definition enabled :: "jsval list \<Rightarrow> nat list" where
  "enabled vl = filter (\<lambda>i. js_ge_num (js_get vl i) 0) [0..<length vl]"

definition inverse_distances :: "jsval list \<Rightarrow> jsval list" where
  "inverse_distances vl = fst (fold (distance_step vl) [1..<length vl] ([Num 0], js_get vl 0))"

section \<open>Loops over arrays\<close>

text \<open>Writing \<open>g i\<close> at each index of a list of indexes that are all inside the array.\<close>

lemma js_set_length_in: "i < length xs \<Longrightarrow> length (js_set xs i v) = length xs"
  by (simp add: js_set_def)

lemma fold_js_set_length:
  "\<forall>i\<in>set ixs. i < length xs \<Longrightarrow> length (fold (\<lambda>i vo. js_set vo i (g i)) ixs xs) = length xs"
  by (induction ixs arbitrary: xs) (simp_all add: js_set_def)

lemma fold_js_set_nth:
  "\<forall>i\<in>set ixs. i < length xs \<Longrightarrow> j < length xs \<Longrightarrow>
     fold (\<lambda>i vo. js_set vo i (g i)) ixs xs ! j = (if j \<in> set ixs then g j else xs ! j)"
proof (induction ixs arbitrary: xs)
  case Nil
  then show ?case by simp
next
  case (Cons a ixs)
  have len: "length (js_set xs a (g a)) = length xs"
    using Cons.prems(1) by (simp add: js_set_def)
  have "fold (\<lambda>i vo. js_set vo i (g i)) ixs (js_set xs a (g a)) ! j =
          (if j \<in> set ixs then g j else js_set xs a (g a) ! j)"
    using Cons.IH [of "js_set xs a (g a)"] Cons.prems len by simp
  then show ?case
    using Cons.prems by (auto simp: js_set_def nth_list_update)
qed

text \<open>The descending copy of \<^verbatim>\<open>trueReverse\<close> reverses the list.\<close>

lemma reverse_loop:
  "fold (\<lambda>i vo. js_set vo i (js_get vl (length vl - i - 1))) (rev [0..<length vl])
     (new_Array (length vl)) = rev vl"
proof (rule nth_equalityI)
  show "length (fold (\<lambda>i vo. js_set vo i (js_get vl (length vl - i - 1))) (rev [0..<length vl])
     (new_Array (length vl))) = length (rev vl)"
    by (simp add: fold_js_set_length new_Array_def)
next
  fix j
  assume "j < length (fold (\<lambda>i vo. js_set vo i (js_get vl (length vl - i - 1))) (rev [0..<length vl])
     (new_Array (length vl)))"
  then have j: "j < length vl"
    by (simp add: fold_js_set_length new_Array_def)
  then show "fold (\<lambda>i vo. js_set vo i (js_get vl (length vl - i - 1))) (rev [0..<length vl])
     (new_Array (length vl)) ! j = rev vl ! j"
    by (auto simp add: fold_js_set_nth new_Array_def js_get_def rev_nth)
qed

text \<open>An ascending copy into an array that is not longer than the source gives the source:
  a write at the current length appends.\<close>

lemma copy_loop_take:
  "m \<le> length src \<Longrightarrow>
     fold (\<lambda>i vo. js_set vo i (js_get src i)) [0..<m] xs = take m src @ drop m xs"
proof (induction m)
  case 0
  then show ?case by simp
next
  case (Suc m)
  then have m: "m < length src" by simp
  have step: "js_set (take m src @ drop m xs) m (src ! m) = take (Suc m) src @ drop (Suc m) xs"
  proof (cases "m < length xs")
    case True
    then show ?thesis
      using m by (simp add: js_set_def list_update_append take_Suc_conv_app_nth
          upd_conv_take_nth_drop min_def Cons_nth_drop_Suc [symmetric])
  next
    case False
    then show ?thesis
      using m by (simp add: js_set_def take_Suc_conv_app_nth)
  qed
  show ?case
    using Suc m step by (simp add: js_get_def)
qed

lemma copy_loop:
  "length xs \<le> length src \<Longrightarrow>
     fold (\<lambda>i vo. js_set vo i (js_get src i)) [0..<length src] xs = src"
  by (simp add: copy_loop_take)

lemma fill_loop_take:
  "m \<le> length xs \<Longrightarrow>
     fold (\<lambda>i vo. js_set vo i c) [0..<m] xs = replicate m c @ drop m xs"
proof (induction m)
  case 0
  then show ?case by simp
next
  case (Suc m)
  then have m: "m < length xs" by simp
  have "js_set (replicate m c @ drop m xs) m c = replicate (Suc m) c @ drop (Suc m) xs"
    using m by (simp add: js_set_def list_update_append replicate_append_same
        Cons_nth_drop_Suc [symmetric])
  then show ?case
    using Suc m by simp
qed

text \<open>The sustain loops push three atoms per index.\<close>

lemma push_loop:
  "fold (\<lambda>i so. so @ h i) ixs so = so @ concat (map h ixs)"
  by (induction ixs arbitrary: so) simp_all

lemma upt_rev_index: "map (\<lambda>i. n - i - 1) (rev [0..<n]) = [0..<n]"
  by (rule nth_equalityI) (auto simp: rev_nth)

lemma index_loop_enumerate:
  "map (\<lambda>i. h i (js_get sl i)) [0..<length sl] = map (\<lambda>(i, v). h i v) (enumerate 0 sl)"
  by (rule nth_equalityI) (simp_all add: js_get_def nth_enumerate_eq)

lemma push_loop_tagged:
  "fold (\<lambda>i so. so @ [Num (int i), Num row, f (js_get sl i)]) [0..<length sl] [] = tagged f row sl"
  using index_loop_enumerate [of "\<lambda>i v. [Num (int i), Num row, f v]" sl]
  by (simp add: push_loop tagged_def)

lemma tagged_Nil_iff: "tagged f row sl = [] \<longleftrightarrow> sl = []"
  by (cases sl) (simp_all add: tagged_def enumerate_simps)

section \<open>What each transform leaves in the output arrays\<close>

lemma trueReverse_valueOut: "valueOut (trueReverse vl s) = rev vl"
  using reverse_loop [of vl] by (simp add: trueReverse_def Let_def)

lemma trueReverse_sustainOut:
  "sustainOut (trueReverse vl s) = tagged envelopeInverseMap_get (matrixRow s) (sustainList s)"
proof -
  let ?n = "length (sustainList s)"
  let ?h = "\<lambda>j. [Num (int j), Num (matrixRow s), envelopeInverseMap_get (js_get (sustainList s) j)]"
  have "sustainOut (trueReverse vl s) = concat (map (\<lambda>i. ?h (?n - i - 1)) (rev [0..<?n]))"
    by (simp add: trueReverse_def Let_def push_loop)
  also have "\<dots> = concat (map ?h (map (\<lambda>i. ?n - i - 1) (rev [0..<?n])))"
    by (simp add: comp_def)
  also have "\<dots> = concat (map ?h [0..<?n])"
    by (simp only: upt_rev_index)
  also have "\<dots> = tagged envelopeInverseMap_get (matrixRow s) (sustainList s)"
    using push_loop_tagged [of "matrixRow s" envelopeInverseMap_get "sustainList s"]
    by (simp add: push_loop)
  finally show ?thesis .
qed


lemma identity_sustainOut:
  "sustainOut (identity vl s) = tagged (\<lambda>v. v) (matrixRow s) (sustainList s)"
  using push_loop_tagged [of "matrixRow s" "\<lambda>v. v" "sustainList s"]
  by (simp add: identity_def Let_def)

lemma noteReverse_sustainOut:
  "sustainOut (noteReverse vl s) = tagged (\<lambda>v. v) (matrixRow s) (sustainList s)"
  using push_loop_tagged [of "matrixRow s" "\<lambda>v. v" "sustainList s"]
  by (simp add: noteReverse_def Let_def split_beta)


lemma distance_loop_length:
  "length (fst (fold (distance_step vl) ixs (dl, p))) = length dl + length ixs"
  by (induction ixs arbitrary: dl p) (simp_all add: distance_step_def Let_def)

lemma update_loop_length:
  "length (fold (update_step vl dl m) ixs ul) = length ul + length ixs"
  by (induction ixs arbitrary: ul) (simp_all add: update_step_def)

lemma update_loop_prefix:
  "i < length ul \<Longrightarrow> fold (update_step vl dl m) ixs ul ! i = ul ! i"
  by (induction ixs arbitrary: ul) (simp_all add: update_step_def nth_append)

lemma inverse_fn_updatedList: "updatedList (snd (inverse_fn vl s)) = fst (inverse_fn vl s)"
  by (simp add: inverse_fn_def Let_def split_beta)

lemma inverse_fn_length: "length (fst (inverse_fn vl s)) = length vl + (1 - length vl)"
  by (auto simp add: inverse_fn_def Let_def split_beta update_loop_length distance_loop_length)

lemma inverse_fn_valueOut: "valueOut (snd (inverse_fn vl s)) = fst (inverse_fn vl s)"
proof -
  have "length (new_Array (length vl)) \<le> length (fst (inverse_fn vl s))"
    by (simp add: inverse_fn_length new_Array_def)
  from copy_loop [OF this] show ?thesis
    by (simp add: inverse_fn_def Let_def split_beta)
qed

lemma inverse_fn_sustainOut:
  "sustainOut (snd (inverse_fn vl s)) = tagged (\<lambda>v. v) (matrixRow s) (sustainList s)"
  using push_loop_tagged [of "matrixRow s" "\<lambda>v. v" "sustainList s"]
  by (simp add: inverse_fn_def Let_def split_beta)

lemma inverse_fn_frame:
  "sustainList (snd (inverse_fn vl s)) = sustainList s"
  "matrixRow (snd (inverse_fn vl s)) = matrixRow s"
  "updateMode (snd (inverse_fn vl s)) = updateMode s"
  "maxPatternRange (snd (inverse_fn vl s)) = maxPatternRange s"
  by (simp_all add: inverse_fn_def Let_def split_beta)

lemma inverse_fn_updateMode:
  "fst (inverse_fn vl (s\<lparr>updateMode := m\<rparr>)) = fst (inverse_fn vl s)"
  by (simp add: inverse_fn_def Let_def split_beta)


lemma reverseInverse_valueOut: "valueOut (reverseInverse vl s) = rev (fst (inverse_fn vl s))"
  by (simp add: reverseInverse_def split_beta trueReverse_valueOut)

lemma reverseInverse_sustainOut:
  "sustainOut (reverseInverse vl s) = tagged envelopeInverseMap_get (matrixRow s) (sustainList s)"
  by (simp add: reverseInverse_def split_beta trueReverse_sustainOut inverse_fn_frame)

section \<open>The handlers\<close>

lemma msg_int_frame:
  "sustainList (msg_int i m s) = sustainList s"
  "matrixRow (msg_int i m s) = matrixRow s"
  "maxPatternRange (msg_int i m s) = maxPatternRange s"
  "restValue (msg_int i m s) = restValue s"
  "updateMode (msg_int 2 m s) = m"
  by (simp_all add: msg_int_def)

lemma list_inlet1: "list (Suc 0) arguments s = (Inr [], s\<lparr>sustainList := arguments\<rparr>)"
  by (simp add: list_def Let_def copy_loop)

lemma output_fn_nonempty:
  "sustainOut s \<noteq> [] \<Longrightarrow> output_fn s = [Outlet 1 (sustainOut s), Outlet 0 (valueOut s)]"
  by (simp add: output_fn_def)

lemma list_inlet0:
  "sustainList s \<noteq> [] \<Longrightarrow>
     list 0 vl s =
       (let s' = (if updateMode s = 0 then identity vl s
                  else if updateMode s = 1 then noteReverse vl s
                  else if updateMode s = 2 then trueReverse vl s
                  else if updateMode s = 3 then snd (inverse_fn vl s)
                  else reverseInverse vl s)
        in (Inr (output_fn s'), s'))"
  by (simp add: list_def Let_def)

lemma list_sustainOut:
  "sustainList s \<noteq> [] \<Longrightarrow>
     sustainOut (snd (list 0 vl s)) =
       tagged (if updateMode s = 0 \<or> updateMode s = 1 \<or> updateMode s = 3 then (\<lambda>v. v)
               else envelopeInverseMap_get) (matrixRow s) (sustainList s)"
  by (simp add: list_inlet0 Let_def identity_sustainOut noteReverse_sustainOut
      trueReverse_sustainOut inverse_fn_sustainOut reverseInverse_sustainOut)

lemma list_events:
  assumes "sustainList s \<noteq> []"
  shows "fst (list 0 vl s)
           = Inr [Outlet 1 (sustainOut (snd (list 0 vl s))), Outlet 0 (valueOut (snd (list 0 vl s)))]"
proof -
  have "sustainOut (snd (list 0 vl s)) \<noteq> []"
    using assms by (simp add: list_sustainOut tagged_Nil_iff)
  moreover have "fst (list 0 vl s) = Inr (output_fn (snd (list 0 vl s)))"
    using assms by (simp add: list_inlet0 Let_def)
  ultimately show ?thesis
    by (simp add: output_fn_nonempty)
qed

section \<open>The loops of noteReverse\<close>

lemma collect_loop:
  "fold (collect_step vl) ixs (ns, es)
     = (ns @ map (js_get vl) (filter (\<lambda>i. js_ge_num (js_get vl i) 0) ixs),
        es @ filter (\<lambda>i. js_ge_num (js_get vl i) 0) ixs)"
  by (induction ixs arbitrary: ns es) (simp_all add: collect_step_def Let_def)

lemma place_loop_Suc:
  "fold (place_step notes idxs) [0..<Suc m] xs
     = place_step notes idxs m (fold (place_step notes idxs) [0..<m] xs)"
  by simp

lemma place_step_in:
  "m < length idxs \<Longrightarrow> m < length notes \<Longrightarrow> idxs ! m < length vo \<Longrightarrow>
     place_step notes idxs m vo = vo[idxs ! m := notes ! m]"
  by (simp add: place_step_def idx_get_def js_get_def js_set_def)

lemma place_loop_length:
  "m \<le> length idxs \<Longrightarrow> m \<le> length notes \<Longrightarrow> \<forall>i\<in>set idxs. i < length xs \<Longrightarrow>
     length (fold (place_step notes idxs) [0..<m] xs) = length xs"
proof (induction m)
  case 0
  then show ?case by simp
next
  case (Suc m)
  then have "idxs ! m < length (fold (place_step notes idxs) [0..<m] xs)"
    by simp
  with Suc show ?case
    by (simp only: place_loop_Suc) (simp add: place_step_in)
qed

lemma place_loop_untouched:
  "m \<le> length idxs \<Longrightarrow> m \<le> length notes \<Longrightarrow> \<forall>i\<in>set idxs. i < length xs \<Longrightarrow>
     j \<notin> set (take m idxs) \<Longrightarrow>
     fold (place_step notes idxs) [0..<m] xs ! j = xs ! j"
proof (induction m)
  case 0
  then show ?case by simp
next
  case (Suc m)
  have len: "length (fold (place_step notes idxs) [0..<m] xs) = length xs"
    using Suc.prems by (simp add: place_loop_length)
  have in_range: "idxs ! m < length xs"
    using Suc.prems by simp
  have ne: "j \<noteq> idxs ! m" and rest: "j \<notin> set (take m idxs)"
    using Suc.prems by (auto simp: take_Suc_conv_app_nth)
  have "fold (place_step notes idxs) [0..<m] xs ! j = xs ! j"
    using Suc.IH Suc.prems rest by simp
  then show ?case
    using Suc.prems len in_range ne
    by (simp only: place_loop_Suc) (simp add: place_step_in)
qed

lemma place_loop_written:
  "m \<le> length idxs \<Longrightarrow> m \<le> length notes \<Longrightarrow> \<forall>i\<in>set idxs. i < length xs \<Longrightarrow>
     distinct idxs \<Longrightarrow> k < m \<Longrightarrow>
     fold (place_step notes idxs) [0..<m] xs ! (idxs ! k) = notes ! k"
proof (induction m)
  case 0
  then show ?case by simp
next
  case (Suc m)
  have len: "length (fold (place_step notes idxs) [0..<m] xs) = length xs"
    using Suc.prems by (simp add: place_loop_length)
  have in_range: "idxs ! m < length xs" "idxs ! k < length xs"
    using Suc.prems by simp_all
  show ?case
  proof (cases "k = m")
    case True
    then show ?thesis
      using Suc.prems len in_range
      by (simp only: place_loop_Suc) (simp add: place_step_in)
  next
    case False
    then have k: "k < m" using Suc.prems by simp
    then have "idxs ! k \<noteq> idxs ! m"
      using Suc.prems by (simp add: nth_eq_iff_index_eq)
    moreover have "fold (place_step notes idxs) [0..<m] xs ! (idxs ! k) = notes ! k"
      using Suc.IH Suc.prems k by simp
    ultimately show ?thesis
      using Suc.prems len in_range
      by (simp only: place_loop_Suc) (simp add: place_step_in)
  qed
qed

lemma place_loop_mset:
  "m \<le> length idxs \<Longrightarrow> m \<le> length notes \<Longrightarrow> \<forall>i\<in>set idxs. i < length xs \<Longrightarrow>
     distinct idxs \<Longrightarrow>
     mset (fold (place_step notes idxs) [0..<m] xs) + mset (map ((!) xs) (take m idxs))
       = mset xs + mset (take m notes)"
proof (induction m)
  case 0
  then show ?case by simp
next
  case (Suc m)
  let ?W = "fold (place_step notes idxs) [0..<m] xs"
  have len: "length ?W = length xs"
    using Suc.prems by (simp add: place_loop_length)
  have in_range: "idxs ! m < length xs"
    using Suc.prems by simp
  have "idxs ! m \<notin> set (take m idxs)"
    using Suc.prems by (auto simp: in_set_conv_nth nth_eq_iff_index_eq)
  then have old: "?W ! (idxs ! m) = xs ! (idxs ! m)"
    using Suc.prems by (simp add: place_loop_untouched)
  have mem: "xs ! (idxs ! m) \<in># mset ?W"
    using old len in_range by (metis nth_mem_mset)
  have IH: "mset ?W + mset (map ((!) xs) (take m idxs)) = mset xs + mset (take m notes)"
    using Suc.IH Suc.prems by simp
  have step: "fold (place_step notes idxs) [0..<Suc m] xs = ?W[idxs ! m := notes ! m]"
    using Suc.prems len in_range by (simp only: place_loop_Suc) (simp add: place_step_in)
  have "mset (?W[idxs ! m := notes ! m]) + mset (map ((!) xs) (take (Suc m) idxs))
          = add_mset (notes ! m) (mset ?W - {#xs ! (idxs ! m)#})
            + (mset (map ((!) xs) (take m idxs)) + {#xs ! (idxs ! m)#})"
    using Suc.prems len in_range old by (simp add: mset_update take_Suc_conv_app_nth)
  also have "\<dots> = add_mset (notes ! m) (mset ?W + mset (map ((!) xs) (take m idxs)))"
    using mem by simp
  also have "\<dots> = mset xs + mset (take (Suc m) notes)"
    using IH Suc.prems by (simp add: take_Suc_conv_app_nth)
  finally show ?case
    by (simp only: step)
qed

lemma noteReverse_valueOut:
  "valueOut (noteReverse vl s)
     = fold (place_step (map (js_get vl) (enabled vl)) (rev (enabled vl)))
         [0..<length (enabled vl)] (replicate (length vl) (Num (restValue s)))"
proof -
  have fill: "fold (\<lambda>i vo. js_set vo i (Num (restValue s))) [0..<length vl]
                (replicate (length vl) Undefined) = replicate (length vl) (Num (restValue s))"
    using fill_loop_take [of "length vl" "replicate (length vl) Undefined" "Num (restValue s)"]
    by simp
  show ?thesis
    by (simp add: noteReverse_def Let_def new_Array_def collect_loop enabled_def fill)
qed

lemma map_filter_js_get:
  "map (js_get vl) (filter (\<lambda>i. q (js_get vl i)) ixs) = filter q (map (js_get vl) ixs)"
  by (induction ixs) simp_all

lemma map_js_get_all: "map (js_get vl) [0..<length vl] = vl"
  by (rule nth_equalityI) (simp_all add: js_get_def)

lemma enabled_notes: "map (js_get vl) (enabled vl) = filter (\<lambda>v. js_ge_num v 0) vl"
  using map_filter_js_get [of vl "\<lambda>v. js_ge_num v 0" "[0..<length vl]"]
  by (simp add: enabled_def map_js_get_all)

lemma enabled_placing:
  "length (enabled vl) \<le> length (rev (enabled vl))"
  "length (enabled vl) \<le> length (map (js_get vl) (enabled vl))"
  "\<forall>i\<in>set (rev (enabled vl)). i < length (replicate (length vl) c)"
  "distinct (rev (enabled vl))"
  by (simp_all add: enabled_def)

lemma enabled_Num:
  "set (enabled (map Num P)) = {i. i < length P \<and> 0 \<le> P ! i}"
  by (auto simp: enabled_def js_get_def)

lemma filter_ge_Num: "filter (\<lambda>v. js_ge_num v 0) (map Num P) = map Num (filter (\<lambda>x. 0 \<le> x) P)"
  by (induction P) simp_all

lemma noteReverse_length: "length (valueOut (noteReverse vl s)) = length vl"
  unfolding noteReverse_valueOut
  by (simp only: place_loop_length [OF enabled_placing(1,2,3)] length_replicate)

lemma noteReverse_rest:
  assumes "j < length P" and "P ! j < 0"
  shows "valueOut (noteReverse (map Num P) s) ! j = Num (restValue s)"
proof -
  have "j \<notin> set (rev (enabled (map Num P)))"
    using assms by (simp add: enabled_Num)
  then have "j \<notin> set (take (length (enabled (map Num P))) (rev (enabled (map Num P))))"
    by simp
  from place_loop_untouched [OF enabled_placing(1,2,3) this]
  show ?thesis
    using assms by (simp add: noteReverse_valueOut)
qed

lemma noteReverse_note:
  assumes "j < length P" and "0 \<le> P ! j"
  shows "\<exists>a. valueOut (noteReverse (map Num P) s) ! j = Num a \<and> 0 \<le> a"
proof -
  let ?vl = "map Num P"
  let ?ix = "rev (enabled ?vl)"
  have "j \<in> set ?ix"
    using assms by (simp add: enabled_Num)
  then obtain k where k: "k < length ?ix" "?ix ! k = j"
    using in_set_conv_nth [of j ?ix] by blast
  then have kn: "k < length (enabled ?vl)" by simp
  have "valueOut (noteReverse ?vl s) ! (?ix ! k) = map (js_get ?vl) (enabled ?vl) ! k"
    unfolding noteReverse_valueOut
    using place_loop_written [OF enabled_placing(1,2,3,4) kn] by simp
  moreover have "enabled ?vl ! k \<in> set (enabled ?vl)"
    using kn by simp
  then have "enabled ?vl ! k < length P \<and> 0 \<le> P ! (enabled ?vl ! k)"
    by (simp add: enabled_Num)
  then have "map (js_get ?vl) (enabled ?vl) ! k = Num (P ! (enabled ?vl ! k)) \<and> 0 \<le> P ! (enabled ?vl ! k)"
    using kn by (simp add: js_get_def)
  ultimately show ?thesis
    using k by auto
qed

lemma noteReverse_rest_positions:
  assumes "restValue s < 0"
  shows "{i. i < length (valueOut (noteReverse (map Num P) s))
              \<and> valueOut (noteReverse (map Num P) s) ! i = Num (restValue s)}
         = {i. i < length P \<and> P ! i < 0}"
proof -
  have "valueOut (noteReverse (map Num P) s) ! i = Num (restValue s) \<longleftrightarrow> P ! i < 0"
    if i: "i < length P" for i
  proof (cases "P ! i < 0")
    case True
    then show ?thesis using i by (simp add: noteReverse_rest)
  next
    case False
    then have "0 \<le> P ! i" by simp
    then obtain a where "valueOut (noteReverse (map Num P) s) ! i = Num a" "0 \<le> a"
      using i noteReverse_note [of i P s] by blast
    then show ?thesis using False assms by auto
  qed
  then show ?thesis
    by (auto simp: noteReverse_length)
qed

lemma noteReverse_notes_mset:
  assumes "restValue s < 0"
  shows "mset (filter (\<lambda>v. v \<noteq> Num (restValue s)) (valueOut (noteReverse (map Num P) s)))
         = mset (map Num (filter (\<lambda>x. 0 \<le> x) P))"
proof -
  let ?vl = "map Num P"
  let ?ix = "rev (enabled ?vl)"
  let ?notes = "map (js_get ?vl) (enabled ?vl)"
  let ?init = "replicate (length ?vl) (Num (restValue s))"
  let ?out = "valueOut (noteReverse ?vl s)"
  let ?keep = "\<lambda>v. v \<noteq> Num (restValue s)"
  have "mset (fold (place_step ?notes ?ix) [0..<length (enabled ?vl)] ?init)
          + mset (map ((!) ?init) (take (length (enabled ?vl)) ?ix))
        = mset ?init + mset (take (length (enabled ?vl)) ?notes)"
    by (rule place_loop_mset [OF enabled_placing(1,2,3,4)])
  then have eq: "mset ?out + mset (map ((!) ?init) ?ix) = mset ?init + mset ?notes"
    by (simp add: noteReverse_valueOut)
  have "\<forall>i\<in>set ?ix. i < length ?init"
    by (rule enabled_placing(3))
  then have old: "map ((!) ?init) ?ix = replicate (length ?ix) (Num (restValue s))"
    by (intro replicate_eqI) auto
  have nts: "?notes = map Num (filter (\<lambda>x. 0 \<le> x) P)"
    by (simp add: enabled_notes filter_ge_Num)
  have keep_notes: "filter_mset ?keep (mset ?notes) = mset ?notes"
    using assms unfolding nts by (auto simp: filter_mset_eq_conv)
  have z: "filter_mset ?keep (mset (replicate n (Num (restValue s)))) = {#}" for n
    by (induction n) simp_all
  have eq2: "mset ?out + mset (replicate (length ?ix) (Num (restValue s))) = mset ?init + mset ?notes"
    using eq by (simp only: old)
  have "filter_mset ?keep (mset ?out + mset (replicate (length ?ix) (Num (restValue s))))
          = filter_mset ?keep (mset ?init + mset ?notes)"
    by (simp only: eq2)
  then have "filter_mset ?keep (mset ?out) = filter_mset ?keep (mset ?notes)"
    by (simp only: filter_union_mset z add_0_left add_0_right)
  then have "mset (filter ?keep ?out) = mset ?notes"
    by (simp only: mset_filter keep_notes)
  then show ?thesis
    by (simp only: nts)
qed

section \<open>The loops of inverse\<close>

lemma update_loop_Suc:
  "1 \<le> k \<Longrightarrow>
     fold (update_step vl dl m) [1..<Suc k] ul
       = update_step vl dl m k (fold (update_step vl dl m) [1..<k] ul)"
  by simp

lemma update_loop_stable:
  assumes "i < k" and "k \<le> n"
  shows "fold (update_step vl dl m) [1..<n] [u] ! i = fold (update_step vl dl m) [1..<k] [u] ! i"
proof -
  have split: "[1..<n] = [1..<k] @ [k..<n]"
  proof (cases "1 \<le> k")
    case True
    then show ?thesis
      using assms upt_add_eq_append [of 1 k "n - k"] by simp
  next
    case False
    then show ?thesis using assms by simp
  qed
  have "i < length (fold (update_step vl dl m) [1..<k] [u])"
    using assms by (simp add: update_loop_length)
  then show ?thesis
    by (simp only: split fold_append comp_apply update_loop_prefix)
qed

lemma update_loop_nth:
  assumes "1 \<le> i" and "i < n"
  shows "fold (update_step vl dl m) [1..<n] [u] ! i
           = (if js_eq_num (js_get vl i) (- 1) then Num (- 1)
              else js_rem (js_add (fold (update_step vl dl m) [1..<n] [u] ! (i - 1)) (js_get dl i))
                     (Num m))"
proof -
  let ?U = "\<lambda>k. fold (update_step vl dl m) [1..<k] [u]"
  have len: "length (?U i) = i"
    using assms by (simp add: update_loop_length)
  have "?U n ! i = ?U (Suc i) ! i"
    using assms by (intro update_loop_stable) simp_all
  also have "\<dots> = update_step vl dl m i (?U i) ! i"
    using assms by (simp only: update_loop_Suc)
  also have "\<dots> = (if js_eq_num (js_get vl i) (- 1) then Num (- 1)
              else js_rem (js_add (?U i ! (i - 1)) (js_get dl i)) (Num m))"
    using assms len by (simp add: update_step_def nth_append js_get_def)
  also have "?U i ! (i - 1) = ?U n ! (i - 1)"
    using assms by (intro update_loop_stable [symmetric]) simp_all
  finally show ?thesis .
qed

lemma update_loop_first: "fold (update_step vl dl m) [1..<n] [u] ! 0 = u"
  by (simp add: update_loop_prefix)

lemma distance_step_num:
  assumes "list_all is_number dl" and "is_number p" and "i < length P"
  shows "list_all is_number (fst (distance_step (map Num P) i (dl, p)))
         \<and> is_number (snd (distance_step (map Num P) i (dl, p)))"
proof -
  obtain q where q: "p = Num q"
    using assms(2) by (cases p) simp_all
  show ?thesis
    using assms by (simp add: distance_step_def Let_def js_get_def q)
qed

lemma distance_loop_num:
  "list_all is_number dl \<Longrightarrow> is_number p \<Longrightarrow> \<forall>i\<in>set ixs. i < length P \<Longrightarrow>
     list_all is_number (fst (fold (distance_step (map Num P)) ixs (dl, p)))
     \<and> is_number (snd (fold (distance_step (map Num P)) ixs (dl, p)))"
proof (induction ixs arbitrary: dl p)
  case Nil
  then show ?case by simp
next
  case (Cons a ixs)
  obtain dl' p' where step: "distance_step (map Num P) a (dl, p) = (dl', p')"
    by (cases "distance_step (map Num P) a (dl, p)")
  have "list_all is_number dl' \<and> is_number p'"
    using distance_step_num [of dl p a P] Cons.prems step by simp
  then show ?case
    using Cons.IH [of dl' p'] Cons.prems step by simp
qed

lemma is_number_ops:
  "is_number x \<Longrightarrow> is_number y \<Longrightarrow> is_number (js_add x y)"
  "is_number x \<Longrightarrow> m \<noteq> 0 \<Longrightarrow> is_number (js_rem x (Num m))"
  by (cases x; cases y; simp)+

lemma update_loop_num:
  assumes "is_number u" and "list_all is_number dl" and "n \<le> length dl" and "m \<noteq> 0"
  shows "i < n \<Longrightarrow> is_number (fold (update_step vl dl m) [1..<n] [u] ! i)"
proof (induction i)
  case 0
  then show ?case using assms update_loop_first [of vl dl m n u] by simp
next
  case (Suc i)
  have d: "is_number (js_get dl (Suc i))"
    using assms Suc.prems by (simp add: js_get_def list_all_length)
  have "is_number (fold (update_step vl dl m) [1..<n] [u] ! i)"
    using Suc by simp
  then show ?case
    using Suc.prems d assms(4) update_loop_nth [of "Suc i" n vl dl m u]
    by (simp add: is_number_ops)
qed

lemma trunc_rem_range:
  "0 \<le> a \<Longrightarrow> 0 < m \<Longrightarrow> 0 \<le> trunc_rem a m \<and> trunc_rem a m < m"
  by (simp add: trunc_rem_def sgn_if)

lemma inverse_fn_distanceList:
  "distanceList (snd (inverse_fn vl s)) = inverse_distances vl"
  by (simp add: inverse_fn_def Let_def split_beta inverse_distances_def)

lemma inverse_fn_closed:
  "fst (inverse_fn vl s)
     = fold (update_step vl (inverse_distances vl) (maxPatternRange s))
         [1..<length (inverse_distances vl)] [js_get vl 0]"
  by (simp add: inverse_fn_def Let_def split_beta inverse_distances_def)

lemma inverse_distances_length:
  assumes "vl \<noteq> []"
  shows "length (inverse_distances vl) = length vl"
proof -
  have "length (inverse_distances vl) = 1 + (length vl - 1)"
    unfolding inverse_distances_def distance_loop_length by simp
  moreover have "0 < length vl"
    using assms by simp
  ultimately show ?thesis by linarith
qed

lemma inverse_distances_num: "P \<noteq> [] \<Longrightarrow> list_all is_number (inverse_distances (map Num P))"
  using distance_loop_num [of "[Num 0]" "Num (P ! 0)" "[1..<length P]" P]
  by (simp add: inverse_distances_def js_get_def)

section \<open>Claims\<close>

subsection \<open>C1: the sustain output of trueReverse\<close>

text \<open>Claim C1 says that under update mode 2 the tagged sustain output holds, at position
  \<open>i\<close>, the swapped stage of position \<open>n - 1 - i\<close> of the stored list, so that
  \<open>[attack, sustain, release]\<close> is emitted as \<open>[attack, sustain, release]\<close>. The comment of
  the loop says the same (\<^verbatim>\<open>copy over sustain in reverse, swapping attack and release
  values\<close>), but the loop counts \<open>i\<close> down and both reads and tags position
  \<open>n - i - 1\<close>: position \<open>j\<close> of the output holds the swapped stage of position \<open>j\<close>
  (lemma \<open>trueReverse_sustainOut\<close>), and the stages are not reversed. After the messages
  \<open>attack sustain release\<close> at inlet 1 and \<open>2\<close> at inlet 2, the pitch list \<open>1 2 3\<close> gives
  the stages \<open>[release, sustain, attack]\<close> at the indexes 0, 1, 2.\<close>

theorem trueReverse_envelope_in_place:
  "fst (list 0 [Num 1, Num 2, Num 3]
          (msg_int 2 2 (snd (list 1 [Num attack, Num sustain, Num release] init_globals))))
     = Inr [Outlet 1 [Num 0, Num 0, Num release, Num 1, Num 0, Num sustain,
                      Num 2, Num 0, Num attack],
            Outlet 0 [Num 3, Num 2, Num 1]]"
  by code_simp

subsection \<open>C2: the range of the outputs of inverse\<close>

lemma inverse_first_output:
  assumes "sustainList s \<noteq> []" and "updateMode s = 3"
  shows "valueOut (snd (list 0 vl s)) ! 0 = js_get vl 0"
proof -
  have "snd (list 0 vl s) = snd (inverse_fn vl s)"
    using assms by (simp add: list_inlet0 Let_def)
  then have "valueOut (snd (list 0 vl s))
               = fold (update_step vl (inverse_distances vl) (maxPatternRange s))
                   [1..<length (inverse_distances vl)] [js_get vl 0]"
    by (simp only: inverse_fn_valueOut inverse_fn_closed)
  then show ?thesis
    by (simp only: update_loop_first)
qed

lemma inverse_range_at:
  assumes "sustainList s \<noteq> []" and "updateMode s = 3" and "0 < maxPatternRange s"
    and "1 \<le> i" and "i < length P" and "P ! i \<noteq> - 1"
  shows "valueOut (snd (list 0 (map Num P) s)) ! 0 = Num (P ! 0)
         \<and> (\<exists>a d. valueOut (snd (list 0 (map Num P) s)) ! (i - 1) = Num a
                \<and> distanceList (snd (list 0 (map Num P) s)) ! i = Num d
                \<and> (0 \<le> a + d \<longrightarrow>
                     in_pattern_range (maxPatternRange s)
                       (valueOut (snd (list 0 (map Num P) s)) ! i)))"
proof -
  let ?vl = "map Num P"
  let ?dl = "inverse_distances ?vl"
  let ?m = "maxPatternRange s"
  let ?U = "fold (update_step ?vl ?dl ?m) [1..<length ?dl] [js_get ?vl 0]"
  have ne: "P \<noteq> []" using assms(5) by auto
  have len: "length ?dl = length P"
    using ne by (simp add: inverse_distances_length)
  have s': "snd (list 0 ?vl s) = snd (inverse_fn ?vl s)"
    using assms(1,2) by (simp add: list_inlet0 Let_def)
  have out: "valueOut (snd (list 0 ?vl s)) = ?U"
    unfolding s' by (simp only: inverse_fn_valueOut inverse_fn_closed)
  have dist: "distanceList (snd (list 0 ?vl s)) = ?dl"
    unfolding s' by (rule inverse_fn_distanceList)
  have u: "js_get ?vl 0 = Num (P ! 0)"
    using ne by (simp add: js_get_def)
  have first: "?U ! 0 = Num (P ! 0)"
    using update_loop_first [of ?vl ?dl ?m "length ?dl" "js_get ?vl 0"] u by simp
  have dnum: "list_all is_number ?dl"
    using ne by (rule inverse_distances_num)
  have "is_number (?U ! (i - 1))"
    using assms(3,4,5) dnum len u
    by (intro update_loop_num) simp_all
  then obtain a where a: "?U ! (i - 1) = Num a"
    by (cases "?U ! (i - 1)") simp_all
  have "is_number (?dl ! i)"
    using dnum len assms(5) by (simp add: list_all_length)
  then obtain d where d: "?dl ! i = Num d"
    by (cases "?dl ! i") simp_all
  have "?U ! i = js_rem (js_add (?U ! (i - 1)) (js_get ?dl i)) (Num ?m)"
    using update_loop_nth [of i "length ?dl" ?vl ?dl ?m "js_get ?vl 0"] assms(4,5,6) len
    by (simp add: js_get_def)
  then have "?U ! i = Num (trunc_rem (a + d) ?m)"
    using a d assms(3,5) len by (simp add: js_get_def)
  then have "0 \<le> a + d \<longrightarrow> in_pattern_range ?m (?U ! i)"
    using assms(3) trunc_rem_range [of "a + d" ?m] by simp
  then show ?thesis
    using first a d by (simp only: out dist) blast
qed

text \<open>Claim C2, as amended: under update mode 3 with a positive \<^verbatim>\<open>maxPatternRange\<close>, for
  every integer pitch list that is not empty the first output is the first input,
  unchanged and not reduced. At every position \<open>i \<ge> 1\<close> whose input is not \<open>-1\<close>, the
  preceding output \<open>a\<close> and the distance \<open>d\<close> are integers, and the output lies in
  \<open>[0, maxPatternRange)\<close> whenever \<open>a + d\<close> is not negative. Nothing is said of a negative
  sum, where \<^verbatim>\<open>%\<close> keeps the sign of the dividend.\<close>

theorem inverse_range_amended:
  assumes "sustainList s \<noteq> []" and "updateMode s = 3" and "0 < maxPatternRange s"
  shows "(P \<noteq> [] \<longrightarrow> valueOut (snd (list 0 (map Num P) s)) ! 0 = Num (P ! 0))
         \<and> (\<forall>i. 1 \<le> i \<and> i < length P \<and> P ! i \<noteq> - 1 \<longrightarrow>
               (\<exists>a d. valueOut (snd (list 0 (map Num P) s)) ! (i - 1) = Num a
                  \<and> distanceList (snd (list 0 (map Num P) s)) ! i = Num d
                  \<and> (0 \<le> a + d \<longrightarrow>
                       in_pattern_range (maxPatternRange s)
                         (valueOut (snd (list 0 (map Num P) s)) ! i))))"
proof (intro conjI impI allI)
  assume "P \<noteq> []"
  then have "js_get (map Num P) 0 = Num (P ! 0)"
    by (simp add: js_get_def)
  then show "valueOut (snd (list 0 (map Num P) s)) ! 0 = Num (P ! 0)"
    using inverse_first_output [OF assms(1,2), of "map Num P"] by simp
next
  fix i
  assume "1 \<le> i \<and> i < length P \<and> P ! i \<noteq> - 1"
  then have i: "1 \<le> i" "i < length P" "P ! i \<noteq> - 1"
    by simp_all
  from inverse_range_at [OF assms i, THEN conjunct2]
  show "\<exists>a d. valueOut (snd (list 0 (map Num P) s)) ! (i - 1) = Num a
                  \<and> distanceList (snd (list 0 (map Num P) s)) ! i = Num d
                  \<and> (0 \<le> a + d \<longrightarrow>
                       in_pattern_range (maxPatternRange s)
                         (valueOut (snd (list 0 (map Num P) s)) ! i))" .
qed

text \<open>The pitch list \<open>[5, 3]\<close>: the first output is 5, and at position 1 the preceding
  output 5 and the distance 2 have the sum 7, so the output is in \<open>[0, 15)\<close>.\<close>

theorem inverse_range_amended_witness:
  "valueOut (snd (list 0 (map Num [5, 3])
        (init_globals\<lparr>sustainList := [Num full], updateMode := 3\<rparr>))) ! 0 = Num 5
   \<and> in_pattern_range 15
     (valueOut (snd (list 0 (map Num [5, 3])
        (init_globals\<lparr>sustainList := [Num full], updateMode := 3\<rparr>))) ! 1)"
proof -
  let ?s = "init_globals\<lparr>sustainList := [Num full], updateMode := 3\<rparr>"
  let ?s' = "snd (list 0 (map Num [5, 3]) ?s)"
  have h: "sustainList ?s \<noteq> []" "updateMode ?s = 3" "0 < maxPatternRange ?s"
    by (simp_all add: init_globals_def)
  have m: "maxPatternRange ?s = 15"
    by (simp add: init_globals_def)
  have ne: "[5, 3 :: int] \<noteq> []"
    by simp
  have i: "(1::nat) \<le> 1 \<and> 1 < length [5, 3 :: int] \<and> [5, 3 :: int] ! 1 \<noteq> - 1"
    by simp
  have first: "valueOut ?s' ! 0 = Num 5"
    using inverse_range_amended [OF h, of "[5, 3]", THEN conjunct1, THEN mp, OF ne] by simp
  have "\<exists>a d. valueOut ?s' ! (1 - 1) = Num a \<and> distanceList ?s' ! 1 = Num d
          \<and> (0 \<le> a + d \<longrightarrow> in_pattern_range (maxPatternRange ?s) (valueOut ?s' ! 1))"
    using inverse_range_amended [OF h, of "[5, 3]", THEN conjunct2, THEN spec, of 1, THEN mp, OF i] .
  then obtain a d where a: "valueOut ?s' ! (1 - 1) = Num a" and d: "distanceList ?s' ! 1 = Num d"
    and r: "0 \<le> a + d \<longrightarrow> in_pattern_range (maxPatternRange ?s) (valueOut ?s' ! 1)"
    by blast
  have "distanceList ?s' ! 1 = Num 2"
    by code_simp
  then have "d = 2" using d by simp
  moreover have "a = 5" using a first by simp
  ultimately have "in_pattern_range 15 (valueOut ?s' ! 1)"
    using r m by simp
  then show ?thesis
    using first by simp
qed

text \<open>The pitch list \<open>[20, 45]\<close> gives \<open>[20, -5]\<close>: the first output is outside the range
  because it is copied, the second because \<open>(20 + (20 - 45)) % 15 = -5\<close>.\<close>

theorem inverse_range_counterexample:
  "valueOut (snd (list 0 (map Num [20, 45]) (msg_int 2 3 (snd (list 1 [Num full] init_globals)))))
     = [Num 20, Num (- 5)]
   \<and> \<not> in_pattern_range 15 (Num 20) \<and> \<not> in_pattern_range 15 (Num (- 5))"
  by code_simp

subsection \<open>C3: the worked example of inverse\<close>

text \<open>Claim C3 says that under update mode 3 with \<^verbatim>\<open>maxPatternRange\<close> 15 the pitch list
  \<open>[5, 3, 7, -1, 2]\<close> gives \<open>[5, 7, 3, -1, 8]\<close>: the walk goes on from the note 3 across
  the rest, by the distance \<open>7 - 2 = 5\<close>. The first loop of \<^verbatim>\<open>inverse\<close> is written for
  that (\<^verbatim>\<open>calculate distances between consecutive non-rest notes\<close>: it keeps
  \<^verbatim>\<open>prev\<close> across a rest and pushes a zero step for it), and the distances are
  \<open>[0, 2, -4, 0, 5]\<close> as the claim says. The second loop adds the distance to
  \<^verbatim>\<open>updatedList[i - 1]\<close>, which after a rest is the rest value \<open>-1\<close> and not the last
  note: the code gives \<open>(-1 + 5) % 15 = 4\<close> at the last position, where the claim has 8.
  The same list without the rest, \<open>[5, 3, 7, 2]\<close>, ends in 8.\<close>

theorem inverse_example_after_rest:
  "valueOut (snd (list 0 (map Num [5, 3, 7, - 1, 2])
       (msg_int 2 3 (snd (list 1 [Num full] init_globals)))))
     = map Num [5, 7, 3, - 1, 4]
   \<and> distanceList (snd (list 0 (map Num [5, 3, 7, - 1, 2])
       (msg_int 2 3 (snd (list 1 [Num full] init_globals)))))
     = map Num [0, 2, - 4, 0, 5]
   \<and> valueOut (snd (list 0 (map Num [5, 3, 7, 2])
       (msg_int 2 3 (snd (list 1 [Num full] init_globals)))))
     = map Num [5, 7, 3, 8]"
  by code_simp

subsection \<open>C4: rests and notes under noteReverse\<close>

text \<open>Claim C4, as amended: \<^verbatim>\<open>noteReverse\<close> takes a value for a note when it is
  \<open>\<ge> 0\<close>, so with the rest value \<open>-1\<close> and an integer pitch list the output positions
  that hold \<open>-1\<close> are the input positions that hold a negative value, and the multiset of
  the outputs other than \<open>-1\<close> is the multiset of the inputs that are not negative. When
  \<open>-1\<close> is the only negative value of the input, this is the claim as it was stated:
  the rest positions are kept and so is the multiset of the values that are not rests.\<close>

theorem noteReverse_negative_as_rest:
  assumes "sustainList s \<noteq> []" and "updateMode s = 1" and "restValue s = - 1"
  shows "{i. i < length (valueOut (snd (list 0 (map Num P) s)))
              \<and> valueOut (snd (list 0 (map Num P) s)) ! i = Num (- 1)}
           = {i. i < length P \<and> P ! i < 0}
         \<and> mset (filter (\<lambda>v. v \<noteq> Num (- 1)) (valueOut (snd (list 0 (map Num P) s))))
           = mset (map Num (filter (\<lambda>x. 0 \<le> x) P))
         \<and> ((\<forall>x\<in>set P. - 1 \<le> x) \<longrightarrow>
              {i. i < length (valueOut (snd (list 0 (map Num P) s)))
                  \<and> valueOut (snd (list 0 (map Num P) s)) ! i = Num (- 1)}
                = {i. i < length P \<and> P ! i = - 1}
              \<and> mset (filter (\<lambda>v. v \<noteq> Num (- 1)) (valueOut (snd (list 0 (map Num P) s))))
                = mset (map Num (filter (\<lambda>x. x \<noteq> - 1) P)))"
proof -
  let ?out = "valueOut (snd (list 0 (map Num P) s))"
  have out: "?out = valueOut (noteReverse (map Num P) s)"
    using assms(1,2) by (simp add: list_inlet0 Let_def)
  have neg: "restValue s < 0" using assms(3) by simp
  have A: "{i. i < length ?out \<and> ?out ! i = Num (- 1)} = {i. i < length P \<and> P ! i < 0}"
    using noteReverse_rest_positions [OF neg, of P] assms(3) by (simp only: out)
  have B: "mset (filter (\<lambda>v. v \<noteq> Num (- 1)) ?out) = mset (map Num (filter (\<lambda>x. 0 \<le> x) P))"
    using noteReverse_notes_mset [OF neg, of P] assms(3) by (simp only: out)
  have C: "{i. i < length P \<and> P ! i < 0} = {i. i < length P \<and> P ! i = - 1}"
    and D: "filter (\<lambda>x. 0 \<le> x) P = filter (\<lambda>x. x \<noteq> - 1) P"
    if "\<forall>x\<in>set P. - 1 \<le> x"
  proof -
    have "x < 0 \<longleftrightarrow> x = - 1" if "x \<in> set P" for x
      using that \<open>\<forall>x\<in>set P. - 1 \<le> x\<close> by force
    then show "{i. i < length P \<and> P ! i < 0} = {i. i < length P \<and> P ! i = - 1}"
      by auto
    have "0 \<le> x \<longleftrightarrow> x \<noteq> - 1" if "x \<in> set P" for x
      using that \<open>\<forall>x\<in>set P. - 1 \<le> x\<close> by force
    then show "filter (\<lambda>x. 0 \<le> x) P = filter (\<lambda>x. x \<noteq> - 1) P"
      by (intro filter_cong) auto
  qed
  have E: "{i. i < length ?out \<and> ?out ! i = Num (- 1)} = {i. i < length P \<and> P ! i = - 1}"
    if h: "\<forall>x\<in>set P. - 1 \<le> x"
    using A C [OF h] by (rule trans)
  have F: "mset (filter (\<lambda>v. v \<noteq> Num (- 1)) ?out) = mset (map Num (filter (\<lambda>x. x \<noteq> - 1) P))"
    if h: "\<forall>x\<in>set P. - 1 \<le> x"
    using B by (simp only: D [OF h])
  show ?thesis
    by (intro conjI impI) (rule A, rule B, erule E, erule F)
qed

theorem noteReverse_negative_as_rest_witness:
  "{i. i < length (valueOut (snd (list 0 (map Num [3, - 1, 4])
              (init_globals\<lparr>sustainList := [Num full], updateMode := 1\<rparr>))))
        \<and> valueOut (snd (list 0 (map Num [3, - 1, 4])
              (init_globals\<lparr>sustainList := [Num full], updateMode := 1\<rparr>))) ! i = Num (- 1)}
     = {i. i < length [3, - 1, 4 :: int] \<and> [3, - 1, 4 :: int] ! i = - 1}
   \<and> mset (filter (\<lambda>v. v \<noteq> Num (- 1))
        (valueOut (snd (list 0 (map Num [3, - 1, 4])
              (init_globals\<lparr>sustainList := [Num full], updateMode := 1\<rparr>)))))
     = mset (map Num (filter (\<lambda>x. x \<noteq> - 1) [3, - 1, 4]))"
proof -
  let ?s = "init_globals\<lparr>sustainList := [Num full], updateMode := 1\<rparr>"
  have h1: "sustainList ?s \<noteq> []" and h2: "updateMode ?s = 1" and h3: "restValue ?s = - 1"
    by (simp_all add: init_globals_def)
  have h4: "\<forall>x\<in>set [3, - 1, 4 :: int]. - 1 \<le> x"
    by simp
  from noteReverse_negative_as_rest [OF h1 h2 h3, THEN conjunct2, THEN conjunct2, THEN mp, OF h4]
  show ?thesis .
qed

text \<open>The pitch list \<open>[-2]\<close> has no rest and one value that is not a rest; its output is
  \<open>[-1]\<close>, a rest at position 0 and no other value.\<close>

theorem noteReverse_counterexample:
  "valueOut (snd (list 0 (map Num [- 2]) (msg_int 2 1 (snd (list 1 [Num full] init_globals)))))
     = [Num (- 1)]"
  by code_simp

subsection \<open>C5: an empty pitch list\<close>




subsection \<open>C6: no sustain list\<close>

text \<open>Claim C6: a pitch list that arrives while the sustain list is empty (as it is until
  a list has arrived at inlet 1; \<^verbatim>\<open>msg_int\<close> does not touch it) throws, whatever the
  update mode and the pitch list. No outlet call is made and every global keeps its
  value.\<close>

theorem missing_envelope_fails:
  "sustainList s = [] \<Longrightarrow>
     list 0 valueList s = (Inl (Error ''Sustain List has not been set''), s)"
  by (simp add: list_def)

theorem missing_envelope_fails_witness:
  "list 0 [Num 5, Num 3] (msg_int 2 3 init_globals)
     = (Inl (Error ''Sustain List has not been set''), msg_int 2 3 init_globals)"
  using missing_envelope_fails [of "msg_int 2 3 init_globals" "[Num 5, Num 3]"]
  by (simp add: msg_int_def init_globals_def)

subsection \<open>C7: reverseInverse is inverse followed by trueReverse\<close>

text \<open>Claim C7: with a sustain list stored, the outlet calls of one pitch list \<open>P\<close> under
  the catch-all mode 4 are those of the second of two calls: \<open>P\<close> under mode 3, then the
  pitch output of that call under mode 2. Both outputs are emitted. The statement needs
  no hypothesis on \<open>P\<close>.\<close>

theorem reverseInverse_composition:
  assumes "sustainList s \<noteq> []"
  shows "fst (list 0 P (msg_int 2 4 s))
           = fst (list 0 (valueOut (snd (list 0 P (msg_int 2 3 s))))
                   (msg_int 2 2 (snd (list 0 P (msg_int 2 3 s)))))
         \<and> fst (list 0 P (msg_int 2 4 s))
             = Inr [Outlet 1 (sustainOut (snd (list 0 P (msg_int 2 4 s)))),
                    Outlet 0 (valueOut (snd (list 0 P (msg_int 2 4 s))))]"
proof -
  let ?s3 = "msg_int 2 3 s" and ?s4 = "msg_int 2 4 s"
  let ?s1 = "snd (list 0 P ?s3)"
  let ?s2 = "msg_int 2 2 ?s1"
  have sl: "sustainList ?s3 \<noteq> []" "sustainList ?s4 \<noteq> []"
    using assms by (simp_all add: msg_int_frame)
  have s1: "?s1 = snd (inverse_fn P ?s3)"
    using sl by (simp add: list_inlet0 Let_def msg_int_frame)
  have fr: "sustainList ?s1 = sustainList s" "matrixRow ?s1 = matrixRow s"
    unfolding s1 by (simp_all add: msg_int_frame inverse_fn_frame)
  have sl2: "sustainList ?s2 \<noteq> []"
    using assms fr by (simp add: msg_int_frame)
  have ev4: "fst (list 0 P ?s4)
             = Inr [Outlet 1 (sustainOut (snd (list 0 P ?s4))), Outlet 0 (valueOut (snd (list 0 P ?s4)))]"
    using sl(2) by (rule list_events)
  have ev2: "fst (list 0 (valueOut ?s1) ?s2)
             = Inr [Outlet 1 (sustainOut (snd (list 0 (valueOut ?s1) ?s2))),
                    Outlet 0 (valueOut (snd (list 0 (valueOut ?s1) ?s2)))]"
    using sl2 by (rule list_events)
  have inv: "fst (inverse_fn P ?s4) = fst (inverse_fn P ?s3)"
    by (simp add: msg_int_def inverse_fn_updateMode)
  have v1: "valueOut ?s1 = fst (inverse_fn P ?s3)"
    unfolding s1 by (rule inverse_fn_valueOut)
  have "valueOut (snd (list 0 P ?s4)) = rev (fst (inverse_fn P ?s4))"
    using sl(2) by (simp add: list_inlet0 Let_def msg_int_frame reverseInverse_valueOut)
  moreover have "valueOut (snd (list 0 (valueOut ?s1) ?s2)) = rev (valueOut ?s1)"
    using sl2 by (simp add: list_inlet0 Let_def msg_int_frame trueReverse_valueOut)
  ultimately have v: "valueOut (snd (list 0 P ?s4)) = valueOut (snd (list 0 (valueOut ?s1) ?s2))"
    using inv v1 by simp
  have "sustainOut (snd (list 0 P ?s4))
          = tagged envelopeInverseMap_get (matrixRow s) (sustainList s)"
    using sl(2) by (simp add: list_sustainOut msg_int_frame)
  moreover have "sustainOut (snd (list 0 (valueOut ?s1) ?s2))
          = tagged envelopeInverseMap_get (matrixRow s) (sustainList s)"
    using sl2 by (simp add: list_sustainOut msg_int_frame fr)
  ultimately have e: "sustainOut (snd (list 0 P ?s4)) = sustainOut (snd (list 0 (valueOut ?s1) ?s2))"
    by simp
  show ?thesis
    using ev4 ev2 v e by simp
qed

theorem reverseInverse_composition_witness:
  "fst (list 0 [Num 5, Num 3] (msg_int 2 4 (init_globals\<lparr>sustainList := [Num attack]\<rparr>)))
           = fst (list 0 (valueOut (snd (list 0 [Num 5, Num 3] (msg_int 2 3 (init_globals\<lparr>sustainList := [Num attack]\<rparr>)))))
                   (msg_int 2 2 (snd (list 0 [Num 5, Num 3] (msg_int 2 3 (init_globals\<lparr>sustainList := [Num attack]\<rparr>))))))"
  using reverseInverse_composition [of "init_globals\<lparr>sustainList := [Num attack]\<rparr>" "[Num 5, Num 3]"]
  by simp

subsection \<open>C8: trueReverse twice\<close>

text \<open>Claim C8: the pitch output of \<^verbatim>\<open>trueReverse\<close> applied to its own pitch output is the
  list it started from, and \<^verbatim>\<open>envelopeInverseMap\<close> read twice gives each of the four
  stages back.\<close>

theorem trueReverse_involution:
  "valueOut (trueReverse (valueOut (trueReverse P s)) s') = P
   \<and> envelopeInverseMap_get (envelopeInverseMap_get (Num full)) = Num full
   \<and> envelopeInverseMap_get (envelopeInverseMap_get (Num attack)) = Num attack
   \<and> envelopeInverseMap_get (envelopeInverseMap_get (Num sustain)) = Num sustain
   \<and> envelopeInverseMap_get (envelopeInverseMap_get (Num release)) = Num release"
  by (simp add: trueReverse_valueOut envelopeInverseMap_get_def envelopeInverseMap_def
      full_def attack_def sustain_def release_def)

subsection \<open>C9: the scale length\<close>

lemma transforms_scaleLength:
  "identity vl (s\<lparr>scaleLength := a\<rparr>) = (identity vl s)\<lparr>scaleLength := a\<rparr>"
  "noteReverse vl (s\<lparr>scaleLength := a\<rparr>) = (noteReverse vl s)\<lparr>scaleLength := a\<rparr>"
  "trueReverse vl (s\<lparr>scaleLength := a\<rparr>) = (trueReverse vl s)\<lparr>scaleLength := a\<rparr>"
  "inverse_fn vl (s\<lparr>scaleLength := a\<rparr>)
     = (fst (inverse_fn vl s), (snd (inverse_fn vl s))\<lparr>scaleLength := a\<rparr>)"
  by (simp_all add: identity_def noteReverse_def trueReverse_def inverse_fn_def Let_def split_beta)

lemma reverseInverse_scaleLength:
  "reverseInverse vl (s\<lparr>scaleLength := a\<rparr>) = (reverseInverse vl s)\<lparr>scaleLength := a\<rparr>"
  by (simp add: reverseInverse_def transforms_scaleLength split_beta)

lemma list_scaleLength:
  "list i args (s\<lparr>scaleLength := a\<rparr>)
     = (fst (list i args s), (snd (list i args s))\<lparr>scaleLength := a\<rparr>)"
  by (simp add: list_def Let_def transforms_scaleLength reverseInverse_scaleLength output_fn_def)

text \<open>Claim C9: two runs that differ only in the integer received at inlet 3 (stored in
  \<^verbatim>\<open>scaleLength\<close>) make the same outlet calls and leave the same output arrays, for
  every update mode, pitch list and sustain list.\<close>

theorem scaleLength_no_effect:
  "fst (list 0 P (msg_int 3 a s)) = fst (list 0 P (msg_int 3 b s))
   \<and> valueOut (snd (list 0 P (msg_int 3 a s))) = valueOut (snd (list 0 P (msg_int 3 b s)))
   \<and> sustainOut (snd (list 0 P (msg_int 3 a s))) = sustainOut (snd (list 0 P (msg_int 3 b s)))"
  by (simp add: msg_int_def list_scaleLength)

subsection \<open>C10: the dispatch on the update mode\<close>

text \<open>Claim C10: with a sustain list stored, every update mode other than 0, 1, 2 and 3
  runs \<^verbatim>\<open>reverseInverse\<close>, and under no update mode does the handler throw.\<close>

theorem mode_dispatch_catch_all:
  assumes "sustainList s \<noteq> []"
  shows "(updateMode s \<notin> {0, 1, 2, 3} \<longrightarrow>
            list 0 valueList s
              = (Inr (output_fn (reverseInverse valueList s)), reverseInverse valueList s))
         \<and> (\<exists>ev. fst (list 0 valueList s) = Inr ev)"
  using assms by (simp add: list_def Let_def)

theorem mode_dispatch_catch_all_witness:
  "list 0 [Num 5, Num 3] (init_globals\<lparr>sustainList := [Num 0], updateMode := - 7\<rparr>)
     = (Inr (output_fn (reverseInverse [Num 5, Num 3]
                (init_globals\<lparr>sustainList := [Num 0], updateMode := - 7\<rparr>))),
        reverseInverse [Num 5, Num 3] (init_globals\<lparr>sustainList := [Num 0], updateMode := - 7\<rparr>))"
  using mode_dispatch_catch_all
    [of "init_globals\<lparr>sustainList := [Num 0], updateMode := - 7\<rparr>" "[Num 5, Num 3]"]
  by simp

end
